theory Spec2Isabelle
  imports Complex_Main "HOL-Library.Word"
begin

section \<open>Seam carving: the data model\<close>

text \<open>
  The program is one C++ file over OpenCV. A \<open>cv::Mat\<close> is a header (\<open>rows\<close>,
  \<open>cols\<close>) and a buffer of cells, kept here row by row. The dimensions of a
  \<open>cv::Mat\<close> are never negative, and every loop counter of the source ranges over
  \<open>[0, rows)\<close> or \<open>[0, cols)\<close>, so dimensions and counters are natural numbers; the
  seam entries (\<open>int *\<close>) and the requested sizes (\<open>int\<close>) stay integers.
  The element types are \<open>Vec3b\<close> (three bytes, blue-green-red) for images,
  \<open>uchar\<close> for the grayscale buffer and \<open>double\<close> for the energies. A
  \<open>double\<close> is modelled as a real number in \<open>energyCal\<close>; the seam finder only adds
  and compares its cells, so it is kept generic in the cell type.
\<close>

type_synonym uchar = "8 word"
type_synonym Vec3b = "uchar \<times> uchar \<times> uchar"

record 'a Mat =
  rows :: nat
  cols :: nat
  cells :: "'a list list"

text \<open>A matrix is well formed when its buffer has \<open>rows\<close> rows of \<open>cols\<close> cells.\<close>

definition wf_Mat :: "'a Mat \<Rightarrow> bool" where
  "wf_Mat m \<longleftrightarrow> length (cells m) = rows m \<and> list_all (\<lambda>r. length r = cols m) (cells m)"

text \<open>\<open>Mat::empty()\<close>: no element at all.\<close>

definition empty_Mat :: "'a Mat \<Rightarrow> bool" where
  "empty_Mat m \<longleftrightarrow> rows m = 0 \<or> cols m = 0"

text \<open>\<open>m.at<T>(i, j)\<close>, read and write.\<close>

definition at_Mat :: "'a Mat \<Rightarrow> nat \<Rightarrow> nat \<Rightarrow> 'a" where
  "at_Mat m i j = cells m ! i ! j"

definition set_at :: "'a Mat \<Rightarrow> nat \<Rightarrow> nat \<Rightarrow> 'a \<Rightarrow> 'a Mat" where
  "set_at m i j v = m\<lparr>cells := (cells m)[i := (cells m ! i)[j := v]]\<rparr>"

text \<open>
  How a call can end without a value: the process exits (\<open>exit(n)\<close>, or \<open>main\<close>
  returns \<open>n\<close>), an OpenCV routine throws \<open>cv::Exception\<close>, or a buffer is accessed
  outside its bounds (undefined behaviour in C++).
\<close>

datatype failure = Exit int | CvException | OutOfBounds

section \<open>Library routines the program calls\<close>

text \<open>
  \<open>cvtColor(img, gray, COLOR_BGR2GRAY)\<close> maps every pixel to its luminance and throws
  on an empty source. The luminance formula belongs to the library, not to the program, so
  it is a parameter \<open>lum\<close> of the model.
\<close>

definition cvtColor_BGR2GRAY :: "(Vec3b \<Rightarrow> uchar) \<Rightarrow> Vec3b Mat \<Rightarrow> failure + uchar Mat" where
  "cvtColor_BGR2GRAY lum img =
     (if empty_Mat img then Inl CvException
      else Inr \<lparr>rows = rows img, cols = cols img, cells = map (map lum) (cells img)\<rparr>)"

text \<open>
  One admissible luminance: the 14-bit fixed-point form of
  \<open>0.114 B + 0.587 G + 0.299 R\<close>. It is used only to run the model on concrete images.
\<close>

definition luma601 :: "Vec3b \<Rightarrow> uchar" where
  "luma601 p = (case p of (b, g, r) \<Rightarrow>
     of_nat ((1868 * unat b + 9617 * unat g + 4899 * unat r + 8192) div 16384))"

text \<open>
  Modelled from the spec: \<open>cv::minMaxLoc\<close> is an OpenCV routine whose code is not part
  of the source; the specification says that ties go to the smallest column index.
  On a single row it gives the position of the minimum: the scan goes left to right and
  replaces the best position only on a strictly smaller value, so the leftmost minimum is
  reported.
\<close>

definition minLoc_x :: "'a::ord list \<Rightarrow> nat" where
  "minLoc_x r = fold (\<lambda>j best. if r ! j < r ! best then j else best) [1..<length r] 0"

text \<open>\<open>std::min(a, b)\<close> returns \<open>b\<close> when \<open>b < a\<close> and \<open>a\<close> otherwise.\<close>

definition std_min :: "'a::ord \<Rightarrow> 'a \<Rightarrow> 'a" where
  "std_min a b = (if b < a then b else a)"

text \<open>
  \<open>transpose(src, dst)\<close>: cell \<open>(i, j)\<close> of the result is cell \<open>(j, i)\<close> of the source;
  an empty source releases the destination.
\<close>

definition transpose_Mat :: "'a Mat \<Rightarrow> 'a Mat" where
  "transpose_Mat src =
     (if empty_Mat src then \<lparr>rows = 0, cols = 0, cells = []\<rparr>
      else \<lparr>rows = cols src, cols = rows src,
            cells = map (\<lambda>i. map (\<lambda>j. at_Mat src j i) [0..<rows src]) [0..<cols src]\<rparr>)"

section \<open>energyCal\<close>

text \<open>The value read by \<open>(double)gray.at<uchar>(y, x)\<close>.\<close>

definition gray_at :: "uchar Mat \<Rightarrow> nat \<Rightarrow> nat \<Rightarrow> real" where
  "gray_at gray y x = real (unat (at_Mat gray y x))"

text \<open>
  The body of the two nested loops: the gradients start at \<open>0.0\<close> and are set by the
  first branch of each \<open>if\<close>/\<open>else if\<close> chain that applies. Inside the loops
  \<open>x < width\<close> and \<open>y < height\<close>, so \<open>width - 1\<close> and \<open>height - 1\<close> do not go below 0.
\<close>

definition pixel_energy :: "uchar Mat \<Rightarrow> nat \<Rightarrow> nat \<Rightarrow> nat \<Rightarrow> nat \<Rightarrow> real" where
  "pixel_energy gray height width y x =
     (let grad_x =
            (if x > 0 \<and> x < width - 1 then gray_at gray y (x + 1) - gray_at gray y (x - 1)
             else if x = 0 \<and> width > 1 then gray_at gray y (x + 1) - gray_at gray y x
             else if x = width - 1 \<and> width > 1 then gray_at gray y x - gray_at gray y (x - 1)
             else 0);
          grad_y =
            (if y > 0 \<and> y < height - 1 then gray_at gray (y + 1) x - gray_at gray (y - 1) x
             else if y = 0 \<and> height > 1 then gray_at gray (y + 1) x - gray_at gray y x
             else if y = height - 1 \<and> height > 1 then gray_at gray y x - gray_at gray (y - 1) x
             else 0)
      in sqrt (grad_x * grad_x + grad_y * grad_y))"

definition energyCal :: "(Vec3b \<Rightarrow> uchar) \<Rightarrow> Vec3b Mat \<Rightarrow> failure + real Mat" where
  "energyCal lum img =
     (case cvtColor_BGR2GRAY lum img of
        Inl e \<Rightarrow> Inl e
      | Inr gray \<Rightarrow>
          (let height = rows gray; width = cols gray
           in Inr \<lparr>rows = height, cols = width,
                   cells = map (\<lambda>y. map (\<lambda>x. pixel_energy gray height width y x) [0..<width])
                               [0..<height]\<rparr>))"

section \<open>seamSearch\<close>

text \<open>
  The dynamic-programming loop updates \<open>cumulativeEnergy\<close> in place: cell \<open>(i, j)\<close>
  reads row \<open>i - 1\<close> of the matrix as it is at that moment and adds to its own cell.
\<close>

definition dp_cell :: "nat \<Rightarrow> nat \<Rightarrow> nat \<Rightarrow> 'a::{plus,ord} Mat \<Rightarrow> 'a Mat" where
  "dp_cell ncols i j cumulativeEnergy =
     (let minEnergy = at_Mat cumulativeEnergy (i - 1) j;
          minEnergy = (if j > 0 then std_min minEnergy (at_Mat cumulativeEnergy (i - 1) (j - 1))
                       else minEnergy);
          minEnergy = (if j < ncols - 1 then std_min minEnergy (at_Mat cumulativeEnergy (i - 1) (j + 1))
                       else minEnergy)
      in set_at cumulativeEnergy i j (at_Mat cumulativeEnergy i j + minEnergy))"

definition dp_row :: "nat \<Rightarrow> nat \<Rightarrow> 'a::{plus,ord} Mat \<Rightarrow> 'a Mat" where
  "dp_row ncols i cumulativeEnergy = fold (dp_cell ncols i) [0..<ncols] cumulativeEnergy"

definition dp_loop :: "nat \<Rightarrow> nat \<Rightarrow> 'a::{plus,ord} Mat \<Rightarrow> 'a Mat" where
  "dp_loop nrows ncols cumulativeEnergy = fold (dp_row ncols) [1..<nrows] cumulativeEnergy"

text \<open>The cumulative energy field: \<open>energy.clone()\<close> after the loop.\<close>

definition cumulative :: "'a::{plus,ord} Mat \<Rightarrow> 'a Mat" where
  "cumulative energy = dp_loop (rows energy) (cols energy) energy"

text \<open>
  One step of the backtracking loop, at row \<open>i\<close> with \<open>prev_col = seam[i + 1]\<close>: the
  value chosen for \<open>seam[i]\<close>.
\<close>

definition choose_col :: "'a::ord Mat \<Rightarrow> nat \<Rightarrow> nat \<Rightarrow> int \<Rightarrow> int" where
  "choose_col cumulativeEnergy ncols i prev_col =
     (let minE = at_Mat cumulativeEnergy i (nat prev_col);
          seam_i = prev_col;
          left = (prev_col > 0 \<and> at_Mat cumulativeEnergy i (nat (prev_col - 1)) < minE);
          seam_i = (if left then prev_col - 1 else seam_i);
          minE = (if left then at_Mat cumulativeEnergy i (nat (prev_col - 1)) else minE);
          seam_i = (if prev_col < int ncols - 1 \<and> at_Mat cumulativeEnergy i (nat (prev_col + 1)) < minE
                    then prev_col + 1 else seam_i)
      in seam_i)"

text \<open>
  The loop \<open>for (i = rows - 2; i >= 0; i--)\<close>. The list holds the part of the array
  written so far, \<open>seam[i + 1 .. rows - 1]\<close>; its head is \<open>seam[i + 1]\<close>. The counter
  is \<open>i + 1\<close>, the number of rows still to fill.
\<close>

fun backtrack :: "'a::ord Mat \<Rightarrow> nat \<Rightarrow> nat \<Rightarrow> int list \<Rightarrow> int list" where
  "backtrack cumulativeEnergy ncols 0 seam = seam"
| "backtrack cumulativeEnergy ncols (Suc i) seam =
     backtrack cumulativeEnergy ncols i (choose_col cumulativeEnergy ncols i (hd seam) # seam)"

text \<open>
  On a field without rows \<open>row(rows - 1)\<close> throws; on a field without columns there is
  no minimum location and the backtracking would read outside the buffer.
\<close>

definition seamSearch :: "'a::{plus,ord} Mat \<Rightarrow> failure + int list" where
  "seamSearch energy =
     (let nrows = rows energy; ncols = cols energy
      in if nrows = 0 then Inl CvException
         else if ncols = 0 then Inl OutOfBounds
         else
           (let cumulativeEnergy = cumulative energy;
                minLoc = int (minLoc_x (take ncols (cells cumulativeEnergy ! (nrows - 1))))
            in Inr (backtrack cumulativeEnergy ncols (nrows - 1) [minLoc])))"

section \<open>removeVerSeam\<close>

text \<open>
  Row \<open>i\<close> of the new image: the first inner loop copies columns \<open>[0, seamCol)\<close> to the
  same positions, the second copies columns \<open>(seamCol, cols)\<close> one position to the left.
\<close>

definition remove_col :: "'a Mat \<Rightarrow> nat \<Rightarrow> int \<Rightarrow> 'a list" where
  "remove_col img i seamCol =
     map (\<lambda>j. at_Mat img i j) [0..<nat seamCol] @
     map (\<lambda>j. at_Mat img i j) [nat (seamCol + 1)..<cols img]"

text \<open>
  \<open>Mat newImg(rows, cols - 1, type)\<close> throws for a negative width. A seam entry outside
  \<open>[0, cols)\<close>, or a seam array shorter than \<open>rows\<close>, makes the loops read or write
  outside a buffer.
\<close>

definition removeVerSeam :: "'a Mat \<Rightarrow> int list \<Rightarrow> failure + 'a Mat" where
  "removeVerSeam img seam =
     (if cols img = 0 then Inl CvException
      else if length seam < rows img
              \<or> \<not> list_all (\<lambda>i. 0 \<le> seam ! i \<and> seam ! i < int (cols img)) [0..<rows img]
           then Inl OutOfBounds
      else Inr \<lparr>rows = rows img, cols = cols img - 1,
                cells = map (\<lambda>i. remove_col img i (seam ! i)) [0..<rows img]\<rparr>)"

section \<open>seamCar\<close>

text \<open>The three calls both loops share: energy map, seam, removal.\<close>

definition carve :: "(Vec3b \<Rightarrow> uchar) \<Rightarrow> Vec3b Mat \<Rightarrow> failure + Vec3b Mat" where
  "carve lum img =
     (case energyCal lum img of
        Inl e \<Rightarrow> Inl e
      | Inr energy \<Rightarrow>
          (case seamSearch energy of
             Inl e \<Rightarrow> Inl e
           | Inr seam \<Rightarrow> removeVerSeam img seam))"

text \<open>The body of the second loop: transpose, carve, transpose back.\<close>

definition height_step :: "(Vec3b \<Rightarrow> uchar) \<Rightarrow> Vec3b Mat \<Rightarrow> failure + Vec3b Mat" where
  "height_step lum img =
     (case carve lum (transpose_Mat img) of
        Inl e \<Rightarrow> Inl e
      | Inr img' \<Rightarrow> Inr (transpose_Mat img'))"

function width_loop :: "(Vec3b \<Rightarrow> uchar) \<Rightarrow> Vec3b Mat \<Rightarrow> int \<Rightarrow> failure + Vec3b Mat" where
  "width_loop lum img newWidth =
     (if int (cols img) > newWidth then
        (case carve lum img of
           Inl e \<Rightarrow> Inl e
         | Inr img' \<Rightarrow> width_loop lum img' newWidth)
      else Inr img)"
  by pat_completeness auto
termination
  by (relation "measure (\<lambda>(lum, img, newWidth). nat (int (cols img) - newWidth))")
     (auto simp: carve_def removeVerSeam_def split: sum.splits if_splits)

function height_loop :: "(Vec3b \<Rightarrow> uchar) \<Rightarrow> Vec3b Mat \<Rightarrow> int \<Rightarrow> failure + Vec3b Mat" where
  "height_loop lum img newHeight =
     (if int (rows img) > newHeight then
        (case height_step lum img of
           Inl e \<Rightarrow> Inl e
         | Inr img' \<Rightarrow> height_loop lum img' newHeight)
      else Inr img)"
  by pat_completeness auto
termination
  by (relation "measure (\<lambda>(lum, img, newHeight). nat (int (rows img) - newHeight))")
     (auto simp: height_step_def carve_def removeVerSeam_def transpose_Mat_def empty_Mat_def
                 energyCal_def cvtColor_BGR2GRAY_def
           split: sum.splits if_splits)

text \<open>
  \<open>seamCar\<close>, with the standard output as a string passed through: the guard prints and
  calls \<open>exit(0)\<close>; the loops print nothing.
\<close>

definition seamCar ::
  "(Vec3b \<Rightarrow> uchar) \<Rightarrow> Vec3b Mat \<Rightarrow> int \<Rightarrow> int \<Rightarrow> string \<Rightarrow> (failure + Vec3b Mat) \<times> string" where
  "seamCar lum img newWidth newHeight out =
     (if newHeight \<ge> int (rows img) \<or> newWidth \<ge> int (cols img)
      then (Inl (Exit 0), out @ ''Invalid Input'' @ [CHR 0x0A])
      else
        (case width_loop lum img newWidth of
           Inl e \<Rightarrow> (Inl e, out)
         | Inr img' \<Rightarrow> (height_loop lum img' newHeight, out)))"

section \<open>main\<close>

text \<open>
  What a run of the program leaves behind: how it ended, what it printed, and the file
  it wrote, if any.
\<close>

record run =
  ending :: failure
  printed :: string
  written :: "(string \<times> Vec3b Mat) option"

text \<open>
  The environment of \<open>main\<close>: the argument vector, the decoder \<open>imread\<close> (an empty
  matrix when the file cannot be read), the two integers read from the standard input,
  and whether the encoder behind \<open>imwrite\<close> succeeds. \<open>imwrite\<close> throws on an empty image.
\<close>

definition main ::
  "(Vec3b \<Rightarrow> uchar) \<Rightarrow> string list \<Rightarrow> (string \<Rightarrow> Vec3b Mat) \<Rightarrow> int \<Rightarrow> int \<Rightarrow> bool \<Rightarrow> run" where
  "main lum argv imread newWidth newHeight isSuccess =
     (if length argv < 2
      then \<lparr>ending = Exit (- 1),
            printed = ''Usage: '' @ (if argv = [] then [] else hd argv) @ '' <image_path>'' @ [CHR 0x0A],
            written = None\<rparr>
      else
        (let img = imread (argv ! 1)
         in if empty_Mat img
            then \<lparr>ending = Exit (- 1), printed = ''Error: not found'' @ [CHR 0x0A], written = None\<rparr>
            else
              (let out = ''Enter new width: '' @ ''Enter new height: ''
               in case seamCar lum img newWidth newHeight out of
                    (Inl e, out') \<Rightarrow> \<lparr>ending = e, printed = out', written = None\<rparr>
                  | (Inr resizedImg, out') \<Rightarrow>
                      if empty_Mat resizedImg
                      then \<lparr>ending = CvException, printed = out', written = None\<rparr>
                      else if \<not> isSuccess
                      then \<lparr>ending = Exit (- 1),
                            printed = out' @ ''Error: not save that size'' @ [CHR 0x0A],
                            written = None\<rparr>
                      else \<lparr>ending = Exit 0, printed = out',
                            written = Some (''resizeImg.jpeg'', resizedImg)\<rparr>)))"

section \<open>Auxiliary definitions for the statements\<close>

text \<open>Adjacent entries of a seam differ by at most one.\<close>

fun steps_ok :: "int list \<Rightarrow> bool" where
  "steps_ok (a # b # xs) \<longleftrightarrow> \<bar>a - b\<bar> \<le> 1 \<and> steps_ok (b # xs)"
| "steps_ok xs \<longleftrightarrow> True"

text \<open>Concrete inputs on which the model is run.\<close>

definition constant_image :: "nat \<Rightarrow> nat \<Rightarrow> Vec3b \<Rightarrow> Vec3b Mat" where
  "constant_image w h p = \<lparr>rows = h, cols = w, cells = replicate h (replicate w p)\<rparr>"

definition example_energy :: "real Mat" where
  "example_energy = \<lparr>rows = 2, cols = 3, cells = [[3, 1, 2], [1, 5, 0]]\<rparr>"

definition example_image :: "Vec3b Mat" where
  "example_image = \<lparr>rows = 2, cols = 3,
      cells = [[(10, 10, 10), (20, 20, 20), (30, 30, 30)],
               [(40, 40, 40), (50, 50, 50), (60, 60, 60)]]\<rparr>"

text \<open>The value \<open>minEnergy\<close> that \<open>dp_cell\<close> adds to cell \<open>(r + 1, j)\<close>, read from row \<open>r\<close>.\<close>

definition upper_min :: "nat \<Rightarrow> 'a::ord Mat \<Rightarrow> nat \<Rightarrow> nat \<Rightarrow> 'a" where
  "upper_min ncols m r j =
     (let minEnergy = at_Mat m r j;
          minEnergy = (if j > 0 then std_min minEnergy (at_Mat m r (j - 1)) else minEnergy);
          minEnergy = (if j < ncols - 1 then std_min minEnergy (at_Mat m r (j + 1)) else minEnergy)
      in minEnergy)"

text \<open>
  The cumulative field as the specification words it, with a buffer per row: row 0 is the
  energy's row 0, and every later row is computed from the finished row before it, each
  cell being its own energy plus the minimum of its upper neighbours (three, or two at a
  border column).
\<close>

definition upper_neighbours :: "'a list \<Rightarrow> nat \<Rightarrow> 'a list" where
  "upper_neighbours prev j =
     [prev ! j] @ (if 0 < j then [prev ! (j - 1)] else [])
                 @ (if j + 1 < length prev then [prev ! (j + 1)] else [])"

definition next_row :: "'a::{plus,linorder} list \<Rightarrow> 'a list \<Rightarrow> 'a list" where
  "next_row prev own = map (\<lambda>j. own ! j + Min (set (upper_neighbours prev j))) [0..<length own]"

fun buffered_rows :: "'a::{plus,linorder} list \<Rightarrow> 'a list list \<Rightarrow> 'a list list" where
  "buffered_rows prev [] = []"
| "buffered_rows prev (own # rest) = next_row prev own # buffered_rows (next_row prev own) rest"

definition cumulative_buffered :: "'a::{plus,linorder} Mat \<Rightarrow> 'a list list" where
  "cumulative_buffered energy =
     (case cells energy of [] \<Rightarrow> [] | first # rest \<Rightarrow> first # buffered_rows first rest)"

definition example_field :: "int Mat" where
  "example_field = \<lparr>rows = 3, cols = 3, cells = [[3, 1, 2], [1, 5, 0], [4, 4, 4]]\<rparr>"

definition tie_field :: "int Mat" where
  "tie_field = \<lparr>rows = 2, cols = 3, cells = [[1, 2, 1], [5, 0, 0]]\<rparr>"

text \<open>
  The gradient along one axis as the specification words it, for the values \<open>g\<close> of a
  line of \<open>n\<close> pixels at position \<open>p\<close>: zero on a line of one pixel, the forward
  difference at the first position, the backward difference at the last, the central
  difference in between.
\<close>

definition axis_gradient :: "(nat \<Rightarrow> real) \<Rightarrow> nat \<Rightarrow> nat \<Rightarrow> real" where
  "axis_gradient g n p =
     (if n = 1 then 0
      else if p = 0 then g (p + 1) - g p
      else if p = n - 1 then g p - g (p - 1)
      else g (p + 1) - g (p - 1))"




section \<open>The seam remover\<close>

lemma remove_col_length:
  "0 \<le> c \<Longrightarrow> c < int (cols img) \<Longrightarrow> length (remove_col img i c) = cols img - 1"
  by (simp add: remove_col_def)

lemma remove_col_nth:
  assumes "0 \<le> c" "c < int (cols img)" "j < cols img - 1"
  shows "remove_col img i c ! j = (if int j < c then at_Mat img i j else at_Mat img i (j + 1))"
proof (cases "int j < c")
  case True
  then have "j < nat c" by linarith
  then show ?thesis using True by (simp add: remove_col_def nth_append)
next
  case False
  then have a: "\<not> j < nat c" by linarith
  have b: "j - nat c < cols img - nat (c + 1)" using assms False by linarith
  have c: "nat (c + 1) + (j - nat c) = j + 1" using assms False by linarith
  show ?thesis using False a b c by (simp add: remove_col_def nth_append)
qed

text \<open>
  C3. Given a well-formed image with at least two columns and a seam with one in-range
  entry per row, \<open>removeVerSeam\<close> returns a well-formed image with the same rows and
  one column less; output pixel \<open>(i, j)\<close> is input pixel \<open>(i, j)\<close> when \<open>j < seam[i]\<close>
  and input pixel \<open>(i, j + 1)\<close> otherwise.
\<close>

theorem removeVerSeam_copies_around_seam:
  assumes "wf_Mat img" and "2 \<le> cols img" and "length seam = rows img"
    and "\<forall>i<rows img. 0 \<le> seam ! i \<and> seam ! i < int (cols img)"
  shows "\<exists>newImg. removeVerSeam img seam = Inr newImg
           \<and> wf_Mat newImg \<and> rows newImg = rows img \<and> cols newImg = cols img - 1
           \<and> (\<forall>i<rows img. \<forall>j<cols img - 1.
                 at_Mat newImg i j = (if int j < seam ! i then at_Mat img i j else at_Mat img i (j + 1)))"
proof -
  let ?out = "\<lparr>rows = rows img, cols = cols img - 1,
                cells = map (\<lambda>i. remove_col img i (seam ! i)) [0..<rows img]\<rparr>"
  have inr: "list_all (\<lambda>i. 0 \<le> seam ! i \<and> seam ! i < int (cols img)) [0..<rows img]"
    using assms(4) by (simp add: list_all_iff)
  have eq: "removeVerSeam img seam = Inr ?out"
    using assms(2,3) inr by (simp add: removeVerSeam_def)
  have wf: "wf_Mat ?out"
    using assms(4) by (simp add: wf_Mat_def list_all_iff remove_col_length)
  have px: "\<forall>i<rows img. \<forall>j<cols img - 1.
       at_Mat ?out i j = (if int j < seam ! i then at_Mat img i j else at_Mat img i (j + 1))"
    using assms(4) by (simp add: at_Mat_def remove_col_nth [unfolded at_Mat_def])
  show ?thesis using eq wf px by simp
qed

theorem removeVerSeam_copies_around_seam_witness:
  "(wf_Mat example_image \<and> 2 \<le> cols example_image \<and> length [1, 2 :: int] = rows example_image)
   \<and> (\<exists>newImg. removeVerSeam example_image [1, 2] = Inr newImg
           \<and> wf_Mat newImg \<and> rows newImg = rows example_image \<and> cols newImg = cols example_image - 1
           \<and> (\<forall>i<rows example_image. \<forall>j<cols example_image - 1.
                 at_Mat newImg i j = (if int j < [1, 2] ! i then at_Mat example_image i j
                                      else at_Mat example_image i (j + 1))))"
proof -
  have h1: "wf_Mat example_image" by (simp add: wf_Mat_def example_image_def)
  have h2: "2 \<le> cols example_image" by (simp add: example_image_def)
  have h3: "length [1, 2 :: int] = rows example_image" by (simp add: example_image_def)
  have h4: "\<forall>i<rows example_image. 0 \<le> [1, 2 :: int] ! i \<and> [1, 2] ! i < int (cols example_image)"
    by (simp add: example_image_def less_Suc_eq nth_Cons' numeral_2_eq_2)
  show ?thesis
    by (rule conjI [OF _ removeVerSeam_copies_around_seam [OF h1 h2 h3 h4]]) (intro conjI h1 h2 h3)
qed

section \<open>The shape of a seam\<close>

lemma steps_ok_nth:
  "steps_ok xs \<Longrightarrow> i + 1 < length xs \<Longrightarrow> \<bar>xs ! i - xs ! (i + 1)\<bar> \<le> 1"
proof (induction xs arbitrary: i rule: steps_ok.induct)
  case (1 a b xs)
  then show ?case by (cases i) auto
qed auto

lemma minLoc_x_scan_bound:
  "best < Suc n \<Longrightarrow> set js \<subseteq> {..n} \<Longrightarrow>
   fold (\<lambda>j best. if (r :: 'a::ord list) ! j < r ! best then j else best) js best < Suc n"
  by (induction js arbitrary: best) auto

lemma minLoc_x_less: "r \<noteq> [] \<Longrightarrow> minLoc_x r < length r"
proof -
  assume "r \<noteq> []"
  then obtain n where n: "length r = Suc n" by (cases r) auto
  have "set [1..<length r] \<subseteq> {..n}" using n by auto
  then show ?thesis
    unfolding minLoc_x_def using minLoc_x_scan_bound [of 0 n "[1..<length r]" r] n by simp
qed

lemma minLoc_x_Nil: "minLoc_x [] = 0"
  by (simp add: minLoc_x_def)

lemma choose_col_range:
  "0 \<le> p \<Longrightarrow> p < int n \<Longrightarrow> 0 \<le> choose_col cum n i p \<and> choose_col cum n i p < int n"
  unfolding choose_col_def Let_def by (simp split: if_splits)

lemma choose_col_step: "\<bar>choose_col cum n i p - p\<bar> \<le> 1"
  unfolding choose_col_def Let_def by (simp split: if_splits)

lemma backtrack_length: "length (backtrack cum n k seam) = k + length seam"
  by (induction k arbitrary: seam) auto

lemma backtrack_range:
  "seam \<noteq> [] \<Longrightarrow> \<forall>c\<in>set seam. 0 \<le> c \<and> c < int n \<Longrightarrow>
   \<forall>c\<in>set (backtrack cum n k seam). 0 \<le> c \<and> c < int n"
proof (induction k arbitrary: seam)
  case 0
  then show ?case by simp
next
  case (Suc k)
  then obtain p rest where s: "seam = p # rest" by (cases seam) auto
  have p: "0 \<le> p" "p < int n" using Suc.prems(2) s by auto
  let ?c = "choose_col cum n k p"
  have c: "0 \<le> ?c \<and> ?c < int n" using p by (rule choose_col_range)
  have all: "\<forall>c\<in>set (?c # seam). 0 \<le> c \<and> c < int n"
    using c Suc.prems(2) by (simp only: list.set ball_simps)
  have "\<forall>c\<in>set (backtrack cum n k (?c # seam)). 0 \<le> c \<and> c < int n"
    by (rule Suc.IH [OF _ all]) simp
  then show ?case by (simp only: backtrack.simps s list.sel)
qed

lemma backtrack_steps:
  "seam \<noteq> [] \<Longrightarrow> steps_ok seam \<Longrightarrow> steps_ok (backtrack cum n k seam)"
proof (induction k arbitrary: seam)
  case 0
  then show ?case by simp
next
  case (Suc k)
  then obtain p rest where s: "seam = p # rest" by (cases seam) auto
  have "steps_ok (choose_col cum n k p # p # rest)"
    using Suc.prems s choose_col_step [of cum n k p] by simp
  then show ?case using Suc.IH [of "choose_col cum n k (hd seam) # seam"] s by simp
qed

lemma seamSearch_nonempty:
  fixes energy :: "'a::{plus,ord} Mat"
  assumes "1 \<le> rows energy" and "1 \<le> cols energy"
  shows "seamSearch energy =
           Inr (backtrack (cumulative energy) (cols energy) (rows energy - 1)
                  [int (minLoc_x (take (cols energy) (cells (cumulative energy) ! (rows energy - 1))))])"
proof -
  have ne: "rows energy \<noteq> 0" "cols energy \<noteq> 0" using assms by auto
  show ?thesis unfolding seamSearch_def Let_def using ne by simp
qed

lemma seamSearch_seam_ok:
  fixes energy :: "'a::{plus,ord} Mat"
  assumes "wf_Mat energy" and "1 \<le> rows energy" and "1 \<le> cols energy"
  shows "\<exists>seam. seamSearch energy = Inr seam
           \<and> length seam = rows energy
           \<and> (\<forall>i<rows energy. 0 \<le> seam ! i \<and> seam ! i < int (cols energy))
           \<and> (\<forall>i. i + 1 < rows energy \<longrightarrow> \<bar>seam ! i - seam ! (i + 1)\<bar> \<le> 1)"
proof -
  let ?cum = "cumulative energy"
  let ?r = "take (cols energy) (cells ?cum ! (rows energy - 1))"
  let ?start = "int (minLoc_x ?r)"
  let ?seam = "backtrack ?cum (cols energy) (rows energy - 1) [?start]"
  have eq: "seamSearch energy = Inr ?seam"
    using assms(2,3) by (rule seamSearch_nonempty)
  have len: "length ?seam = rows energy"
    using assms(2) by (simp add: backtrack_length)
  have "minLoc_x ?r < cols energy"
  proof (cases "?r = []")
    case True
    then show ?thesis using assms(3) by (simp add: minLoc_x_Nil)
  next
    case False
    then have "minLoc_x ?r < length ?r" by (rule minLoc_x_less)
    then show ?thesis by simp
  qed
  then have start: "\<forall>c\<in>set [?start]. 0 \<le> c \<and> c < int (cols energy)" by simp
  have rng: "\<forall>c\<in>set ?seam. 0 \<le> c \<and> c < int (cols energy)"
    by (rule backtrack_range [OF _ start]) simp
  have st: "steps_ok ?seam"
    by (rule backtrack_steps) simp_all
  have r1: "\<forall>i<rows energy. 0 \<le> ?seam ! i \<and> ?seam ! i < int (cols energy)"
    using rng len by (simp add: all_set_conv_all_nth)
  have r2: "\<forall>i. i + 1 < rows energy \<longrightarrow> \<bar>?seam ! i - ?seam ! (i + 1)\<bar> \<le> 1"
    using steps_ok_nth [OF st] len by simp
  show ?thesis
    apply (rule exI [of _ ?seam])
    using eq len r1 r2 apply simp
    done
qed

text \<open>
  C2. On a well-formed energy field with at least one row and one column, \<open>seamSearch\<close>
  returns a seam with one entry per row, every entry in \<open>[0, cols)\<close>, and adjacent
  entries at most one apart.
\<close>

theorem seamSearch_seam_shape:
  fixes energy :: "'a::{plus,ord} Mat"
  assumes "wf_Mat energy" and "1 \<le> rows energy" and "1 \<le> cols energy"
  shows "\<exists>seam. seamSearch energy = Inr seam
           \<and> length seam = rows energy
           \<and> (\<forall>i<rows energy. 0 \<le> seam ! i \<and> seam ! i < int (cols energy))
           \<and> (\<forall>i. i + 1 < rows energy \<longrightarrow> \<bar>seam ! i - seam ! (i + 1)\<bar> \<le> 1)"
  using assms by (rule seamSearch_seam_ok)

theorem seamSearch_seam_shape_witness:
  "(wf_Mat example_energy \<and> 1 \<le> rows example_energy \<and> 1 \<le> cols example_energy)
   \<and> (\<exists>seam. seamSearch example_energy = Inr seam
           \<and> length seam = rows example_energy
           \<and> (\<forall>i<rows example_energy. 0 \<le> seam ! i \<and> seam ! i < int (cols example_energy))
           \<and> (\<forall>i. i + 1 < rows example_energy \<longrightarrow> \<bar>seam ! i - seam ! (i + 1)\<bar> \<le> 1))"
proof -
  have h1: "wf_Mat example_energy" by (simp add: wf_Mat_def example_energy_def)
  have h2: "1 \<le> rows example_energy" by (simp add: example_energy_def)
  have h3: "1 \<le> cols example_energy" by (simp add: example_energy_def)
  show ?thesis
    by (rule conjI [OF _ seamSearch_seam_shape [OF h1 h2 h3]]) (intro conjI h1 h2 h3)
qed

section \<open>Rejected targets\<close>

text \<open>
  C7. When the target width is not below the current width, or the target height is not
  below the current height, \<open>seamCar\<close> prints \<open>Invalid Input\<close> and leaves through
  \<open>exit\<close> without returning an image, and a run of \<open>main\<close> that decoded this image
  writes no file.
\<close>

theorem seamCar_rejects_target_not_smaller:
  assumes "newWidth \<ge> int (cols img) \<or> newHeight \<ge> int (rows img)"
    and "imread (argv ! 1) = img"
  shows "seamCar lum img newWidth newHeight out
           = (Inl (Exit 0), out @ ''Invalid Input'' @ [CHR 0x0A])
         \<and> written (main lum argv imread newWidth newHeight isSuccess) = None"
proof -
  have guard: "int (rows img) \<le> newHeight \<or> int (cols img) \<le> newWidth"
    using assms(1) by blast
  have car: "\<And>out. seamCar lum img newWidth newHeight out
           = (Inl (Exit 0), out @ ''Invalid Input'' @ [CHR 0x0A])"
    unfolding seamCar_def using guard by (simp only: if_True)
  have "written (main lum argv imread newWidth newHeight isSuccess) = None"
    unfolding main_def Let_def assms(2) car by simp
  then show ?thesis using car by simp
qed

theorem seamCar_rejects_target_not_smaller_witness:
  "(4 \<ge> int (cols (constant_image 4 4 (128, 128, 128)))
      \<or> 3 \<ge> int (rows (constant_image 4 4 (128, 128, 128))))
   \<and> (seamCar luma601 (constant_image 4 4 (128, 128, 128)) 4 3 []
         = (Inl (Exit 0), [] @ ''Invalid Input'' @ [CHR 0x0A])
       \<and> written (main luma601 [''seam'', ''in.png''] (\<lambda>path. constant_image 4 4 (128, 128, 128)) 4 3 True)
         = None)"
proof -
  have h1: "4 \<ge> int (cols (constant_image 4 4 (128, 128, 128)))
      \<or> 3 \<ge> int (rows (constant_image 4 4 (128, 128, 128)))"
    by (simp add: constant_image_def)
  have h2: "(\<lambda>path. constant_image 4 4 (128, 128, 128)) ([''seam'', ''in.png''] ! 1)
              = constant_image 4 4 (128, 128, 128)"
    by simp
  show ?thesis
    by (rule conjI [OF h1 seamCar_rejects_target_not_smaller [OF h1 h2]])
qed

section \<open>The cumulative energy field\<close>

lemma dp_cell_upper_min:
  "dp_cell ncols i j m = set_at m i j (at_Mat m i j + upper_min ncols m (i - 1) j)"
  by (simp add: dp_cell_def upper_min_def Let_def)

lemma upper_min_cong:
  "(\<And>x. at_Mat m' r x = at_Mat m r x) \<Longrightarrow> upper_min n m' r j = upper_min n m r j"
  by (simp add: upper_min_def Let_def)

lemma set_at_dims [simp]: "rows (set_at m i j v) = rows m" "cols (set_at m i j v) = cols m"
  by (simp_all add: set_at_def)

lemma wf_set_at: "wf_Mat m \<Longrightarrow> wf_Mat (set_at m i j v)"
proof -
  assume wf: "wf_Mat m"
  have len: "length (cells m) = rows m" using wf by (simp add: wf_Mat_def)
  have row: "\<And>n. n < rows m \<Longrightarrow> length (cells m ! n) = cols m"
    using wf by (simp add: wf_Mat_def list_all_length)
  have "\<And>n. n < rows m \<Longrightarrow> length ((cells m)[i := (cells m ! i)[j := v]] ! n) = cols m"
  proof -
    fix n assume n: "n < rows m"
    show "length ((cells m)[i := (cells m ! i)[j := v]] ! n) = cols m"
    proof (cases "n = i")
      case True
      then show ?thesis using n len row [of i] by simp
    next
      case False
      then show ?thesis using n row [of n] by simp
    qed
  qed
  then show ?thesis using len by (simp add: wf_Mat_def set_at_def list_all_length)
qed

lemma at_set_at:
  assumes "wf_Mat m" "i < rows m" "j < cols m"
  shows "at_Mat (set_at m i j v) i' j' = (if i' = i \<and> j' = j then v else at_Mat m i' j')"
proof -
  have li: "i < length (cells m)" using assms by (simp add: wf_Mat_def)
  have lj: "j < length (cells m ! i)" using assms li by (simp add: wf_Mat_def list_all_length)
  show ?thesis
  proof (cases "i' = i")
    case True
    then show ?thesis using li lj by (simp add: at_Mat_def set_at_def nth_list_update)
  next
    case False
    then show ?thesis by (simp add: at_Mat_def set_at_def)
  qed
qed

lemma dp_cell_dims [simp]: "rows (dp_cell n i j m) = rows m" "cols (dp_cell n i j m) = cols m"
  by (simp_all add: dp_cell_upper_min)

lemma wf_dp_cell: "wf_Mat m \<Longrightarrow> wf_Mat (dp_cell n i j m)"
  by (simp add: dp_cell_upper_min wf_set_at)

lemma at_dp_cell:
  assumes "wf_Mat m" "i < rows m" "j < cols m"
  shows "at_Mat (dp_cell n i j m) i' j' =
           (if i' = i \<and> j' = j then at_Mat m i j + upper_min n m (i - 1) j else at_Mat m i' j')"
  unfolding dp_cell_upper_min by (rule at_set_at [OF assms])

text \<open>The inner loop after its first \<open>k\<close> iterations.\<close>

lemma dp_row_prefix:
  fixes m :: "'a::{plus,ord} Mat"
  assumes "wf_Mat m" "i < rows m" "1 \<le> i"
  shows "k \<le> cols m \<Longrightarrow>
         wf_Mat (fold (dp_cell n i) [0..<k] m)
         \<and> rows (fold (dp_cell n i) [0..<k] m) = rows m
         \<and> cols (fold (dp_cell n i) [0..<k] m) = cols m
         \<and> (\<forall>i' j'. at_Mat (fold (dp_cell n i) [0..<k] m) i' j' =
               (if i' = i \<and> j' < k then at_Mat m i j' + upper_min n m (i - 1) j' else at_Mat m i' j'))"
proof (induction k)
  case 0
  then show ?case using assms(1) by simp
next
  case (Suc k)
  let ?m' = "fold (dp_cell n i) [0..<k] m"
  have k: "k < cols m" using Suc.prems by simp
  have ih: "wf_Mat ?m'" "rows ?m' = rows m" "cols ?m' = cols m"
    "\<And>i' j'. at_Mat ?m' i' j' =
        (if i' = i \<and> j' < k then at_Mat m i j' + upper_min n m (i - 1) j' else at_Mat m i' j')"
    using Suc.IH k by simp_all
  have step: "fold (dp_cell n i) [0..<Suc k] m = dp_cell n i k ?m'" by simp
  have neq: "i - 1 \<noteq> i" using assms(3) by simp
  have above: "\<And>x. at_Mat ?m' (i - 1) x = at_Mat m (i - 1) x"
    unfolding ih(4) using neq by simp
  have um: "upper_min n ?m' (i - 1) k = upper_min n m (i - 1) k"
    by (rule upper_min_cong) (rule above)
  have own: "at_Mat ?m' i k = at_Mat m i k" using ih(4) by simp
  have cell: "\<And>i' j'. at_Mat (dp_cell n i k ?m') i' j' =
      (if i' = i \<and> j' = k then at_Mat m i k + upper_min n m (i - 1) k else at_Mat ?m' i' j')"
    using at_dp_cell [of ?m' i k n] ih(1,2,3) assms(2) k um own by simp
  have "\<forall>i' j'. at_Mat (dp_cell n i k ?m') i' j' =
      (if i' = i \<and> j' < Suc k then at_Mat m i j' + upper_min n m (i - 1) j' else at_Mat m i' j')"
    unfolding cell ih(4) by (auto simp: less_Suc_eq)
  then show ?case unfolding step using ih(1,2,3) by (simp add: wf_dp_cell)
qed

lemma dp_row_spec:
  fixes m :: "'a::{plus,ord} Mat"
  assumes "wf_Mat m" "i < rows m" "1 \<le> i"
  shows "wf_Mat (dp_row (cols m) i m)" "rows (dp_row (cols m) i m) = rows m"
        "cols (dp_row (cols m) i m) = cols m"
        "at_Mat (dp_row (cols m) i m) i' j' =
               (if i' = i \<and> j' < cols m then at_Mat m i j' + upper_min (cols m) m (i - 1) j'
                else at_Mat m i' j')"
  using dp_row_prefix [OF assms, of "cols m" "cols m"] by (simp_all add: dp_row_def)

lemma dp_loop_prefix:
  fixes m :: "'a::{plus,ord} Mat"
  assumes wf: "wf_Mat m"
  shows "k \<le> rows m \<Longrightarrow>
         wf_Mat (fold (dp_row (cols m)) [1..<k] m)
         \<and> rows (fold (dp_row (cols m)) [1..<k] m) = rows m
         \<and> cols (fold (dp_row (cols m)) [1..<k] m) = cols m
         \<and> (\<forall>i j. at_Mat (fold (dp_row (cols m)) [1..<k] m) i j =
               (if 1 \<le> i \<and> i < k \<and> j < cols m
                then at_Mat m i j + upper_min (cols m) (fold (dp_row (cols m)) [1..<k] m) (i - 1) j
                else at_Mat m i j))"
proof (induction k)
  case 0
  then show ?case using wf by simp
next
  case (Suc k)
  show ?case
  proof (cases "k = 0")
    case True
    then show ?thesis using wf by simp
  next
    case False
    let ?n = "cols m"
    let ?m' = "fold (dp_row ?n) [1..<k] m"
    let ?m'' = "dp_row ?n k ?m'"
    have k: "k < rows m" "1 \<le> k" using Suc.prems False by simp_all
    have ih: "wf_Mat ?m'" "rows ?m' = rows m" "cols ?m' = ?n"
      "\<And>i j. at_Mat ?m' i j =
          (if 1 \<le> i \<and> i < k \<and> j < ?n then at_Mat m i j + upper_min ?n ?m' (i - 1) j
           else at_Mat m i j)"
      using Suc.IH k(1) by simp_all
    have step: "fold (dp_row ?n) [1..<Suc k] m = ?m''"
      using k(2) by simp
    have k': "k < rows ?m'" using k(1) ih(2) by simp
    have row: "wf_Mat ?m''" "rows ?m'' = rows m" "cols ?m'' = ?n"
      using dp_row_spec(1,2,3) [OF ih(1) k' k(2)] ih(2,3) by simp_all
    have cell: "\<And>i j. at_Mat ?m'' i j =
        (if i = k \<and> j < ?n then at_Mat ?m' k j + upper_min ?n ?m' (k - 1) j else at_Mat ?m' i j)"
      using dp_row_spec(4) [OF ih(1) k' k(2)] ih(3) by simp
    have keep: "\<And>r j. r \<noteq> k \<Longrightarrow> upper_min ?n ?m'' r j = upper_min ?n ?m' r j"
    proof -
      fix r j assume r: "r \<noteq> k"
      have same: "\<And>x. at_Mat ?m'' r x = at_Mat ?m' r x"
        unfolding cell using r by simp
      show "upper_min ?n ?m'' r j = upper_min ?n ?m' r j"
        by (rule upper_min_cong) (rule same)
    qed
    have "\<And>i j. at_Mat ?m'' i j =
        (if 1 \<le> i \<and> i < Suc k \<and> j < ?n then at_Mat m i j + upper_min ?n ?m'' (i - 1) j
         else at_Mat m i j)"
    proof -
      fix i j
      consider (old) "1 \<le> i" "i < k" "j < ?n" | (new) "i = k" "j < ?n"
        | (out) "\<not> (1 \<le> i \<and> i < Suc k \<and> j < ?n)"
        by linarith
      then show "at_Mat ?m'' i j =
        (if 1 \<le> i \<and> i < Suc k \<and> j < ?n then at_Mat m i j + upper_min ?n ?m'' (i - 1) j
         else at_Mat m i j)"
      proof cases
        case old
        have "i - 1 \<noteq> k" using old by simp
        then have "upper_min ?n ?m'' (i - 1) j = upper_min ?n ?m' (i - 1) j" by (rule keep)
        moreover have "at_Mat ?m'' i j = at_Mat ?m' i j" using old cell by simp
        moreover have "at_Mat ?m' i j = at_Mat m i j + upper_min ?n ?m' (i - 1) j"
          using old ih(4) by simp
        ultimately show ?thesis using old by simp
      next
        case new
        have "k - 1 \<noteq> k" using k(2) by simp
        then have "upper_min ?n ?m'' (k - 1) j = upper_min ?n ?m' (k - 1) j" by (rule keep)
        moreover have "at_Mat ?m'' k j = at_Mat ?m' k j + upper_min ?n ?m' (k - 1) j"
          using new cell by simp
        moreover have "at_Mat ?m' k j = at_Mat m k j" using ih(4) [of k j] by simp
        ultimately show ?thesis using new k(2) by simp
      next
        case out
        then have a: "at_Mat ?m'' i j = at_Mat ?m' i j" using cell [of i j] k(2) by auto
        have b: "at_Mat ?m' i j = at_Mat m i j" using out ih(4) [of i j] by auto
        show ?thesis using out a b by auto
      qed
    qed
    then show ?thesis unfolding step using row by simp
  qed
qed

lemma cumulative_spec:
  fixes energy :: "'a::{plus,ord} Mat"
  assumes "wf_Mat energy"
  shows "wf_Mat (cumulative energy)" "rows (cumulative energy) = rows energy"
        "cols (cumulative energy) = cols energy"
        "at_Mat (cumulative energy) i j =
           (if 1 \<le> i \<and> i < rows energy \<and> j < cols energy
            then at_Mat energy i j + upper_min (cols energy) (cumulative energy) (i - 1) j
            else at_Mat energy i j)"
  using dp_loop_prefix [OF assms, of "rows energy"] by (simp_all add: cumulative_def dp_loop_def)

lemma std_min_min: "std_min (a :: 'a::linorder) b = min a b"
  by (auto simp: std_min_def min_def)

lemma upper_min_neighbours:
  fixes m :: "'a::linorder Mat"
  assumes "length (cells m ! r) = n"
  shows "upper_min n m r j = Min (set (upper_neighbours (cells m ! r) j))"
proof -
  have "j + 1 < length (cells m ! r) \<longleftrightarrow> j < n - 1" using assms by auto
  then show ?thesis
    unfolding upper_min_def upper_neighbours_def Let_def std_min_min at_Mat_def
    by (simp add: min.commute min.left_commute)
qed

lemma buffered_rows_length [simp]: "length (buffered_rows prev rs) = length rs"
  by (induction rs arbitrary: prev) simp_all

lemma buffered_rows_nth:
  "k < length rs \<Longrightarrow>
   buffered_rows prev rs ! k = next_row ((prev # buffered_rows prev rs) ! k) (rs ! k)"
proof (induction rs arbitrary: prev k)
  case Nil
  then show ?case by simp
next
  case (Cons own rest)
  show ?case
  proof (cases k)
    case 0
    then show ?thesis by simp
  next
    case (Suc k')
    then have "k' < length rest" using Cons.prems by simp
    then show ?thesis using Cons.IH [of k' "next_row prev own"] Suc by simp
  qed
qed

lemma cumulative_buffered_length: "length (cumulative_buffered energy) = length (cells energy)"
  by (simp add: cumulative_buffered_def split: list.splits)

lemma cumulative_buffered_0:
  "cells energy \<noteq> [] \<Longrightarrow> cumulative_buffered energy ! 0 = cells energy ! 0"
  by (simp add: cumulative_buffered_def split: list.splits)

lemma cumulative_buffered_Suc:
  "Suc i < length (cells energy) \<Longrightarrow>
   cumulative_buffered energy ! Suc i = next_row (cumulative_buffered energy ! i) (cells energy ! Suc i)"
  by (auto simp: cumulative_buffered_def buffered_rows_nth split: list.splits)

lemma cumulative_row_length:
  fixes energy :: "'a::{plus,ord} Mat"
  assumes "wf_Mat energy" "i < rows energy"
  shows "length (cells (cumulative energy) ! i) = cols energy"
  using cumulative_spec(1,2,3) [OF assms(1)] assms(2)
  by (simp add: wf_Mat_def list_all_length)

lemma cumulative_row0:
  fixes energy :: "'a::{plus,ord} Mat"
  assumes "wf_Mat energy" "1 \<le> rows energy"
  shows "cells (cumulative energy) ! 0 = cells energy ! 0"
proof (rule nth_equalityI)
  have "length (cells energy ! 0) = cols energy"
    using assms by (simp add: wf_Mat_def list_all_length)
  then show "length (cells (cumulative energy) ! 0) = length (cells energy ! 0)"
    using cumulative_row_length [OF assms(1), of 0] assms(2) by simp
next
  fix j
  show "cells (cumulative energy) ! 0 ! j = cells energy ! 0 ! j"
    using cumulative_spec(4) [OF assms(1), of 0 j] by (simp add: at_Mat_def)
qed

lemma cumulative_cell_Min:
  fixes energy :: "'a::{plus,linorder} Mat"
  assumes "wf_Mat energy" "1 \<le> i" "i < rows energy" "j < cols energy"
  shows "at_Mat (cumulative energy) i j =
           at_Mat energy i j + Min (set (upper_neighbours (cells (cumulative energy) ! (i - 1)) j))"
proof -
  have "i - 1 < rows energy" using assms(3) by simp
  then have "length (cells (cumulative energy) ! (i - 1)) = cols energy"
    by (rule cumulative_row_length [OF assms(1)])
  then have "upper_min (cols energy) (cumulative energy) (i - 1) j
               = Min (set (upper_neighbours (cells (cumulative energy) ! (i - 1)) j))"
    by (rule upper_min_neighbours)
  then show ?thesis using cumulative_spec(4) [OF assms(1), of i j] assms(2,3,4) by simp
qed

lemma cumulative_rows_buffered:
  fixes energy :: "'a::{plus,linorder} Mat"
  assumes wf: "wf_Mat energy"
  shows "i < rows energy \<Longrightarrow> cells (cumulative energy) ! i = cumulative_buffered energy ! i"
proof (induction i)
  case 0
  then have "cells energy \<noteq> []" using wf by (auto simp: wf_Mat_def)
  then show ?case using cumulative_row0 [OF wf] 0 by (simp add: cumulative_buffered_0)
next
  case (Suc i)
  let ?C = "cells (cumulative energy)"
  have len: "length (cells energy) = rows energy" using wf by (simp add: wf_Mat_def)
  have ih: "?C ! i = cumulative_buffered energy ! i" using Suc by simp
  have own: "length (cells energy ! Suc i) = cols energy"
    using wf Suc.prems by (simp add: wf_Mat_def list_all_length)
  have b: "cumulative_buffered energy ! Suc i = next_row (?C ! i) (cells energy ! Suc i)"
    using cumulative_buffered_Suc [of i energy] Suc.prems len ih by simp
  show ?case
  proof (rule nth_equalityI)
    show "length (?C ! Suc i) = length (cumulative_buffered energy ! Suc i)"
      using cumulative_row_length [OF wf Suc.prems] own by (simp add: b next_row_def)
  next
    fix j assume "j < length (?C ! Suc i)"
    then have j: "j < cols energy" using cumulative_row_length [OF wf Suc.prems] by simp
    have "at_Mat (cumulative energy) (Suc i) j =
            at_Mat energy (Suc i) j + Min (set (upper_neighbours (?C ! i) j))"
      using cumulative_cell_Min [OF wf _ Suc.prems j] by simp
    then show "?C ! Suc i ! j = cumulative_buffered energy ! Suc i ! j"
      using j own by (simp add: b next_row_def at_Mat_def)
  qed
qed

text \<open>
  C5. For a well-formed energy field, after the in-place loop row 0 of the cumulative
  field is row 0 of the energy field; every cell \<open>(i, j)\<close> with \<open>1 \<le> i\<close> is its own
  energy plus the minimum of the cumulative cells \<open>(i - 1, j)\<close>, \<open>(i - 1, j - 1)\<close> (when
  \<open>j > 0\<close>) and \<open>(i - 1, j + 1)\<close> (when \<open>j < cols - 1\<close>); and the in-place result equals
  the row-buffered computation.
\<close>

theorem cumulative_recurrence:
  fixes energy :: "'a::{plus,linorder} Mat"
  assumes "wf_Mat energy"
  shows "(1 \<le> rows energy \<longrightarrow> cells (cumulative energy) ! 0 = cells energy ! 0)
       \<and> (\<forall>i j. 1 \<le> i \<and> i < rows energy \<and> j < cols energy \<longrightarrow>
             at_Mat (cumulative energy) i j =
               at_Mat energy i j
               + Min ({at_Mat (cumulative energy) (i - 1) j}
                      \<union> (if 0 < j then {at_Mat (cumulative energy) (i - 1) (j - 1)} else {})
                      \<union> (if j < cols energy - 1 then {at_Mat (cumulative energy) (i - 1) (j + 1)}
                         else {})))
       \<and> cells (cumulative energy) = cumulative_buffered energy"
proof (intro conjI impI allI)
  assume "1 \<le> rows energy"
  then show "cells (cumulative energy) ! 0 = cells energy ! 0"
    by (rule cumulative_row0 [OF assms])
next
  fix i j assume a: "1 \<le> i \<and> i < rows energy \<and> j < cols energy"
  have "i - 1 < rows energy" using a by linarith
  then have len: "length (cells (cumulative energy) ! (i - 1)) = cols energy"
    by (rule cumulative_row_length [OF assms])
  have "j + 1 < cols energy \<longleftrightarrow> j < cols energy - 1" by auto
  then have "set (upper_neighbours (cells (cumulative energy) ! (i - 1)) j) =
          {at_Mat (cumulative energy) (i - 1) j}
            \<union> (if 0 < j then {at_Mat (cumulative energy) (i - 1) (j - 1)} else {})
            \<union> (if j < cols energy - 1 then {at_Mat (cumulative energy) (i - 1) (j + 1)} else {})"
    unfolding upper_neighbours_def len at_Mat_def by auto
  then show "at_Mat (cumulative energy) i j =
               at_Mat energy i j
               + Min ({at_Mat (cumulative energy) (i - 1) j}
                      \<union> (if 0 < j then {at_Mat (cumulative energy) (i - 1) (j - 1)} else {})
                      \<union> (if j < cols energy - 1 then {at_Mat (cumulative energy) (i - 1) (j + 1)}
                         else {}))"
    using cumulative_cell_Min [OF assms, of i j] a by simp
next
  show "cells (cumulative energy) = cumulative_buffered energy"
  proof (rule nth_equalityI)
    show "length (cells (cumulative energy)) = length (cumulative_buffered energy)"
      using cumulative_spec(1,2) [OF assms] assms
      by (simp add: cumulative_buffered_length wf_Mat_def)
  next
    fix i assume "i < length (cells (cumulative energy))"
    then have "i < rows energy" using cumulative_spec(1,2) [OF assms] by (simp add: wf_Mat_def)
    then show "cells (cumulative energy) ! i = cumulative_buffered energy ! i"
      by (rule cumulative_rows_buffered [OF assms])
  qed
qed

theorem cumulative_recurrence_witness:
  "wf_Mat example_field
   \<and> cells (cumulative example_field) ! 0 = cells example_field ! 0
   \<and> cells (cumulative example_field) = cumulative_buffered example_field
   \<and> cumulative_buffered example_field = [[3, 1, 2], [2, 6, 1], [6, 5, 5]]"
proof -
  have h: "wf_Mat example_field" by (simp add: wf_Mat_def example_field_def)
  have r: "1 \<le> rows example_field" by (simp add: example_field_def)
  note t = cumulative_recurrence [OF h]
  have c1: "cells (cumulative example_field) ! 0 = cells example_field ! 0"
    using t r by blast
  have c2: "cells (cumulative example_field) = cumulative_buffered example_field"
    using t by blast
  have c3: "cumulative_buffered example_field = [[3, 1, 2], [2, 6, 1], [6, 5, 5]]"
    by (simp add: cumulative_buffered_def example_field_def next_row_def upper_neighbours_def
          upt_rec [of 0] upt_rec [of 1] upt_rec [of 2] upt_rec [of 3])
  show ?thesis by (intro conjI h c1 c2 c3)
qed

section \<open>Tie-breaking in the seam finder\<close>

lemma minLoc_x_scan_leftmost:
  fixes r :: "'a::linorder list"
  shows "k \<le> length r \<Longrightarrow> r \<noteq> [] \<Longrightarrow>
    (let c = fold (\<lambda>j best. if r ! j < r ! best then j else best) [1..<k] 0
     in c < length r \<and> (\<forall>j<k. r ! c \<le> r ! j) \<and> (\<forall>j<c. r ! c < r ! j))"
proof (induction k)
  case 0
  then show ?case by simp
next
  case (Suc k)
  show ?case
  proof (cases "k = 0")
    case True
    then show ?thesis using Suc.prems by simp
  next
    case False
    let ?c = "fold (\<lambda>j best. if r ! j < r ! best then j else best) [1..<k] 0"
    have ih: "?c < length r" "\<And>j. j < k \<Longrightarrow> r ! ?c \<le> r ! j" "\<And>j. j < ?c \<Longrightarrow> r ! ?c < r ! j"
      using Suc.IH Suc.prems by (simp_all add: Let_def)
    have step: "fold (\<lambda>j best. if r ! j < r ! best then j else best) [1..<Suc k] 0
                  = (if r ! k < r ! ?c then k else ?c)"
      using False by simp
    show ?thesis
    proof (cases "r ! k < r ! ?c")
      case True
      have a: "\<And>j. j < Suc k \<Longrightarrow> r ! k \<le> r ! j"
      proof -
        fix j assume "j < Suc k"
        then consider "j < k" | "j = k" by linarith
        then show "r ! k \<le> r ! j"
        proof cases
          case 1
          then have "r ! ?c \<le> r ! j" by (rule ih(2))
          then show ?thesis using True by simp
        next
          case 2
          then show ?thesis by simp
        qed
      qed
      have b: "\<And>j. j < k \<Longrightarrow> r ! k < r ! j"
      proof -
        fix j assume "j < k"
        then have "r ! ?c \<le> r ! j" by (rule ih(2))
        then show "r ! k < r ! j" using True by simp
      qed
      show ?thesis unfolding step Let_def using True a b Suc.prems by simp
    next
      case False
      have a: "\<And>j. j < Suc k \<Longrightarrow> r ! ?c \<le> r ! j"
      proof -
        fix j assume "j < Suc k"
        then consider "j < k" | "j = k" by linarith
        then show "r ! ?c \<le> r ! j"
        proof cases
          case 1
          then show ?thesis by (rule ih(2))
        next
          case 2
          then show ?thesis using False by simp
        qed
      qed
      show ?thesis unfolding step Let_def using False a ih(1,3) by simp
    qed
  qed
qed

lemma minLoc_x_leftmost:
  fixes r :: "'a::linorder list"
  assumes "r \<noteq> []"
  shows "minLoc_x r < length r" "\<And>j. j < length r \<Longrightarrow> r ! minLoc_x r \<le> r ! j"
        "\<And>j. j < minLoc_x r \<Longrightarrow> r ! minLoc_x r < r ! j"
  using minLoc_x_scan_leftmost [of "length r" r] assms
  by (simp_all add: minLoc_x_def Let_def)

lemma backtrack_nth:
  "seam \<noteq> [] \<Longrightarrow>
   (\<forall>i<k. backtrack cum n k seam ! i = choose_col cum n i (backtrack cum n k seam ! (i + 1)))
   \<and> (\<forall>i. k \<le> i \<longrightarrow> backtrack cum n k seam ! i = seam ! (i - k))"
proof (induction k arbitrary: seam)
  case 0
  then show ?case by simp
next
  case (Suc k)
  then obtain p rest where s: "seam = p # rest" by (cases seam) auto
  let ?c = "choose_col cum n k p"
  let ?s = "backtrack cum n k (?c # seam)"
  have eq: "backtrack cum n (Suc k) seam = ?s" by (simp add: s)
  have ih1: "\<And>i. i < k \<Longrightarrow> ?s ! i = choose_col cum n i (?s ! (i + 1))"
    and ih2: "\<And>i. k \<le> i \<Longrightarrow> ?s ! i = (?c # seam) ! (i - k)"
    using Suc.IH [of "?c # seam"] by simp_all
  have at_k: "?s ! k = ?c" using ih2 [of k] by simp
  have at_Sk: "?s ! (k + 1) = p" using ih2 [of "k + 1"] by (simp add: s)
  have a: "\<And>i. i < Suc k \<Longrightarrow> ?s ! i = choose_col cum n i (?s ! (i + 1))"
  proof -
    fix i assume "i < Suc k"
    then consider "i < k" | "i = k" by linarith
    then show "?s ! i = choose_col cum n i (?s ! (i + 1))"
    proof cases
      case 1
      then show ?thesis by (rule ih1)
    next
      case 2
      then show ?thesis using at_k at_Sk by simp
    qed
  qed
  have b: "\<And>i. Suc k \<le> i \<Longrightarrow> ?s ! i = seam ! (i - Suc k)"
  proof -
    fix i assume i: "Suc k \<le> i"
    then have "?s ! i = (?c # seam) ! (i - k)" using ih2 [of i] by simp
    moreover have "i - k = Suc (i - Suc k)" using i by simp
    ultimately show "?s ! i = seam ! (i - Suc k)" by simp
  qed
  show ?case unfolding eq using a b by blast
qed

lemma choose_col_order:
  "choose_col cum n i p =
     (if p > 0 \<and> at_Mat cum i (nat (p - 1)) < at_Mat cum i (nat p)
      then (if p < int n - 1 \<and> at_Mat cum i (nat (p + 1)) < at_Mat cum i (nat (p - 1))
            then p + 1 else p - 1)
      else (if p < int n - 1 \<and> at_Mat cum i (nat (p + 1)) < at_Mat cum i (nat p)
            then p + 1 else p))"
  unfolding choose_col_def Let_def by auto

text \<open>
  C4. On a non-empty well-formed field over a linearly ordered cell type, the last entry
  of the seam is the leftmost column holding the minimum of the last cumulative row: no
  column holds less, and every column to its left holds strictly more. Above it, each
  entry follows from the entry \<open>prev\<close> below by strict comparisons in the order
  straight, left, right: the left neighbour is taken only when strictly below the straight
  cell, and the right neighbour only when strictly below the better of the two. So the
  straight column wins a tie with either neighbour and the left wins a tie with the right.
\<close>

theorem seamSearch_tie_break:
  fixes energy :: "'a::{plus,linorder} Mat"
  assumes "wf_Mat energy" and "1 \<le> rows energy" and "1 \<le> cols energy"
  shows "\<exists>seam. seamSearch energy = Inr seam
     \<and> 0 \<le> seam ! (rows energy - 1) \<and> seam ! (rows energy - 1) < int (cols energy)
     \<and> (\<forall>j<cols energy.
            at_Mat (cumulative energy) (rows energy - 1) (nat (seam ! (rows energy - 1)))
              \<le> at_Mat (cumulative energy) (rows energy - 1) j)
     \<and> (\<forall>j. int j < seam ! (rows energy - 1) \<longrightarrow>
            at_Mat (cumulative energy) (rows energy - 1) (nat (seam ! (rows energy - 1)))
              < at_Mat (cumulative energy) (rows energy - 1) j)
     \<and> (\<forall>i. i + 1 < rows energy \<longrightarrow>
            seam ! i =
              (if seam ! (i + 1) > 0
                  \<and> at_Mat (cumulative energy) i (nat (seam ! (i + 1) - 1))
                      < at_Mat (cumulative energy) i (nat (seam ! (i + 1)))
               then (if seam ! (i + 1) < int (cols energy) - 1
                        \<and> at_Mat (cumulative energy) i (nat (seam ! (i + 1) + 1))
                            < at_Mat (cumulative energy) i (nat (seam ! (i + 1) - 1))
                     then seam ! (i + 1) + 1 else seam ! (i + 1) - 1)
               else (if seam ! (i + 1) < int (cols energy) - 1
                        \<and> at_Mat (cumulative energy) i (nat (seam ! (i + 1) + 1))
                            < at_Mat (cumulative energy) i (nat (seam ! (i + 1)))
                     then seam ! (i + 1) + 1 else seam ! (i + 1))))"
proof -
  let ?cum = "cumulative energy"
  let ?H = "rows energy"
  let ?W = "cols energy"
  let ?r = "take ?W (cells ?cum ! (?H - 1))"
  let ?c = "minLoc_x ?r"
  let ?seam = "backtrack ?cum ?W (?H - 1) [int ?c]"
  have eq: "seamSearch energy = Inr ?seam"
    using assms(2,3) by (rule seamSearch_nonempty)
  have "?H - 1 < ?H" using assms(2) by simp
  then have rowlen: "length (cells ?cum ! (?H - 1)) = ?W"
    by (rule cumulative_row_length [OF assms(1)])
  then have rlen: "length ?r = ?W" by simp
  then have ne: "?r \<noteq> []" using assms(3) by auto
  have rnth: "\<And>j. j < ?W \<Longrightarrow> ?r ! j = at_Mat ?cum (?H - 1) j"
    by (simp add: at_Mat_def)
  have c: "?c < ?W" using minLoc_x_leftmost(1) [OF ne] rlen by simp
  have nth: "\<And>i. i < ?H - 1 \<Longrightarrow> ?seam ! i = choose_col ?cum ?W i (?seam ! (i + 1))"
    and tail: "\<And>i. ?H - 1 \<le> i \<Longrightarrow> ?seam ! i = [int ?c] ! (i - (?H - 1))"
    using backtrack_nth [of "[int ?c]" "?H - 1" ?cum ?W] by simp_all
  have last: "?seam ! (?H - 1) = int ?c" using tail [of "?H - 1"] by simp
  have p1: "0 \<le> ?seam ! (?H - 1) \<and> ?seam ! (?H - 1) < int ?W"
    unfolding last using c by simp
  have p2: "\<forall>j<?W. at_Mat ?cum (?H - 1) (nat (?seam ! (?H - 1))) \<le> at_Mat ?cum (?H - 1) j"
  proof (intro allI impI)
    fix j assume j: "j < ?W"
    then have "?r ! ?c \<le> ?r ! j" using minLoc_x_leftmost(2) [OF ne, of j] rlen by simp
    then show "at_Mat ?cum (?H - 1) (nat (?seam ! (?H - 1))) \<le> at_Mat ?cum (?H - 1) j"
      unfolding last using rnth [OF j] rnth [OF c] by simp
  qed
  have p3: "\<forall>j. int j < ?seam ! (?H - 1) \<longrightarrow>
              at_Mat ?cum (?H - 1) (nat (?seam ! (?H - 1))) < at_Mat ?cum (?H - 1) j"
  proof (intro allI impI)
    fix j assume "int j < ?seam ! (?H - 1)"
    then have j: "j < ?c" unfolding last by simp
    then have jw: "j < ?W" using c by simp
    have "?r ! ?c < ?r ! j" using minLoc_x_leftmost(3) [OF ne j] .
    then show "at_Mat ?cum (?H - 1) (nat (?seam ! (?H - 1))) < at_Mat ?cum (?H - 1) j"
      unfolding last using rnth [OF jw] rnth [OF c] by simp
  qed
  have p4: "\<forall>i. i + 1 < ?H \<longrightarrow>
            ?seam ! i =
              (if ?seam ! (i + 1) > 0
                  \<and> at_Mat ?cum i (nat (?seam ! (i + 1) - 1)) < at_Mat ?cum i (nat (?seam ! (i + 1)))
               then (if ?seam ! (i + 1) < int ?W - 1
                        \<and> at_Mat ?cum i (nat (?seam ! (i + 1) + 1))
                            < at_Mat ?cum i (nat (?seam ! (i + 1) - 1))
                     then ?seam ! (i + 1) + 1 else ?seam ! (i + 1) - 1)
               else (if ?seam ! (i + 1) < int ?W - 1
                        \<and> at_Mat ?cum i (nat (?seam ! (i + 1) + 1))
                            < at_Mat ?cum i (nat (?seam ! (i + 1)))
                     then ?seam ! (i + 1) + 1 else ?seam ! (i + 1)))"
  proof (intro allI impI)
    fix i assume "i + 1 < ?H"
    then have "i < ?H - 1" by simp
    then have "?seam ! i = choose_col ?cum ?W i (?seam ! (i + 1))" by (rule nth)
    then show "?seam ! i =
              (if ?seam ! (i + 1) > 0
                  \<and> at_Mat ?cum i (nat (?seam ! (i + 1) - 1)) < at_Mat ?cum i (nat (?seam ! (i + 1)))
               then (if ?seam ! (i + 1) < int ?W - 1
                        \<and> at_Mat ?cum i (nat (?seam ! (i + 1) + 1))
                            < at_Mat ?cum i (nat (?seam ! (i + 1) - 1))
                     then ?seam ! (i + 1) + 1 else ?seam ! (i + 1) - 1)
               else (if ?seam ! (i + 1) < int ?W - 1
                        \<and> at_Mat ?cum i (nat (?seam ! (i + 1) + 1))
                            < at_Mat ?cum i (nat (?seam ! (i + 1)))
                     then ?seam ! (i + 1) + 1 else ?seam ! (i + 1)))"
      by (simp only: choose_col_order)
  qed
  show ?thesis
    by (rule exI [of _ ?seam]) (intro conjI eq p1 [THEN conjunct1] p1 [THEN conjunct2] p2 p3 p4)
qed

theorem seamSearch_tie_break_witness:
  "(wf_Mat tie_field \<and> 1 \<le> rows tie_field \<and> 1 \<le> cols tie_field)
   \<and> seamSearch tie_field = Inr [0, 1]
   \<and> (\<exists>seam. seamSearch tie_field = Inr seam
     \<and> 0 \<le> seam ! (rows tie_field - 1) \<and> seam ! (rows tie_field - 1) < int (cols tie_field)
     \<and> (\<forall>j<cols tie_field.
            at_Mat (cumulative tie_field) (rows tie_field - 1) (nat (seam ! (rows tie_field - 1)))
              \<le> at_Mat (cumulative tie_field) (rows tie_field - 1) j)
     \<and> (\<forall>j. int j < seam ! (rows tie_field - 1) \<longrightarrow>
            at_Mat (cumulative tie_field) (rows tie_field - 1) (nat (seam ! (rows tie_field - 1)))
              < at_Mat (cumulative tie_field) (rows tie_field - 1) j)
     \<and> (\<forall>i. i + 1 < rows tie_field \<longrightarrow>
            seam ! i =
              (if seam ! (i + 1) > 0
                  \<and> at_Mat (cumulative tie_field) i (nat (seam ! (i + 1) - 1))
                      < at_Mat (cumulative tie_field) i (nat (seam ! (i + 1)))
               then (if seam ! (i + 1) < int (cols tie_field) - 1
                        \<and> at_Mat (cumulative tie_field) i (nat (seam ! (i + 1) + 1))
                            < at_Mat (cumulative tie_field) i (nat (seam ! (i + 1) - 1))
                     then seam ! (i + 1) + 1 else seam ! (i + 1) - 1)
               else (if seam ! (i + 1) < int (cols tie_field) - 1
                        \<and> at_Mat (cumulative tie_field) i (nat (seam ! (i + 1) + 1))
                            < at_Mat (cumulative tie_field) i (nat (seam ! (i + 1)))
                     then seam ! (i + 1) + 1 else seam ! (i + 1)))))"
proof -
  have h1: "wf_Mat tie_field" by (simp add: wf_Mat_def tie_field_def)
  have h2: "1 \<le> rows tie_field" by (simp add: tie_field_def)
  have h3: "1 \<le> cols tie_field" by (simp add: tie_field_def)
  have v: "seamSearch tie_field = Inr [0, 1]" by code_simp
  show ?thesis
    by (intro conjI h1 h2 h3 v seamSearch_tie_break [OF h1 h2 h3])
qed

section \<open>The energy map\<close>

lemma gradient_chain:
  assumes "p < n"
  shows "(if p > 0 \<and> p < n - 1 then g (p + 1) - g (p - 1)
    else if p = 0 \<and> n > 1 then g (p + 1) - g p
    else if p = n - 1 \<and> n > 1 then g p - g (p - 1)
    else 0) = axis_gradient g n p"
proof -
  consider (one) "n = 1" "p = 0" | (left) "1 < n" "p = 0" | (right) "1 < n" "0 < p" "p = n - 1"
    | (mid) "0 < p" "p < n - 1"
    using assms by linarith
  then show ?thesis
  proof cases
    case one
    then show ?thesis by (simp add: axis_gradient_def)
  next
    case left
    then show ?thesis by (simp add: axis_gradient_def)
  next
    case right
    then show ?thesis by (simp add: axis_gradient_def)
  next
    case mid
    then have "n \<noteq> 1" "p \<noteq> 0" "p \<noteq> n - 1" by simp_all
    then show ?thesis using mid by (simp add: axis_gradient_def)
  qed
qed

lemma axis_gradient_cong:
  assumes "p < n" and "\<And>q. q < n \<Longrightarrow> g q = g' q"
  shows "axis_gradient g n p = axis_gradient g' n p"
proof -
  consider (one) "n = 1" | (left) "1 < n" "p = 0" | (right) "1 < n" "0 < p" "p = n - 1"
    | (mid) "0 < p" "p < n - 1"
    using assms(1) by linarith
  then show ?thesis
  proof cases
    case one
    then show ?thesis by (simp add: axis_gradient_def)
  next
    case left
    then have "g 0 = g' 0" "g 1 = g' 1" using assms(2) by simp_all
    then show ?thesis using left by (simp add: axis_gradient_def)
  next
    case right
    then have "g p = g' p" "g (p - 1) = g' (p - 1)" using assms by simp_all
    then show ?thesis using right by (simp add: axis_gradient_def)
  next
    case mid
    then have n: "n \<noteq> 1" "p \<noteq> 0" "p \<noteq> n - 1" by simp_all
    have "g (p + 1) = g' (p + 1)" "g (p - 1) = g' (p - 1)" using assms mid by simp_all
    then show ?thesis using n by (simp add: axis_gradient_def)
  qed
qed

lemma pixel_energy_axis:
  assumes "y < height" "x < width"
  shows "pixel_energy gray height width y x =
           sqrt ((axis_gradient (\<lambda>x'. gray_at gray y x') width x)\<^sup>2
               + (axis_gradient (\<lambda>y'. gray_at gray y' x) height y)\<^sup>2)"
  unfolding pixel_energy_def Let_def
    gradient_chain [where g = "\<lambda>x'. gray_at gray y x'", OF assms(2)]
    gradient_chain [where g = "\<lambda>y'. gray_at gray y' x", OF assms(1)]
  by (simp add: power2_eq_square)

lemma gray_at_cvt:
  assumes "wf_Mat img" "y < rows img" "x < cols img"
  shows "gray_at \<lparr>rows = rows img, cols = cols img, cells = map (map lum) (cells img)\<rparr> y x
           = real (unat (lum (at_Mat img y x)))"
proof -
  have "y < length (cells img)" using assms by (simp add: wf_Mat_def)
  moreover from this have "x < length (cells img ! y)"
    using assms by (simp add: wf_Mat_def list_all_length)
  ultimately show ?thesis by (simp add: gray_at_def at_Mat_def)
qed

lemma energyCal_nonempty:
  assumes "1 \<le> rows img" "1 \<le> cols img"
  shows "energyCal lum img =
     Inr \<lparr>rows = rows img, cols = cols img,
          cells = map (\<lambda>y. map (\<lambda>x. pixel_energy
                    \<lparr>rows = rows img, cols = cols img, cells = map (map lum) (cells img)\<rparr>
                    (rows img) (cols img) y x) [0..<cols img]) [0..<rows img]\<rparr>"
proof -
  have "\<not> empty_Mat img" using assms by (auto simp: empty_Mat_def)
  then show ?thesis by (simp add: energyCal_def cvtColor_BGR2GRAY_def Let_def)
qed

text \<open>
  C6. On a well-formed image with at least one row and one column, \<open>energyCal\<close> returns
  a well-formed field of the same dimensions, and its cell \<open>(y, x)\<close> is
  \<open>sqrt (gx\<^sup>2 + gy\<^sup>2)\<close>, where \<open>gx\<close> is the gradient of the gray values along row \<open>y\<close>
  and \<open>gy\<close> the gradient along column \<open>x\<close>: central difference inside, forward
  difference at the first position, backward difference at the last, zero on an axis of
  length one. The arithmetic of \<open>double\<close> is read as real arithmetic: the differences
  and the sum of squares are integers below \<open>2\<^sup>5\<^sup>3\<close> and exact in \<open>double\<close>; the square
  root is the mathematical one.
\<close>

theorem energyCal_gradient_magnitude:
  assumes "wf_Mat img" and "1 \<le> rows img" and "1 \<le> cols img"
  shows "\<exists>energy. energyCal lum img = Inr energy
           \<and> wf_Mat energy \<and> rows energy = rows img \<and> cols energy = cols img
           \<and> (\<forall>y<rows img. \<forall>x<cols img.
                 at_Mat energy y x =
                   sqrt ((axis_gradient (\<lambda>x'. real (unat (lum (at_Mat img y x')))) (cols img) x)\<^sup>2
                       + (axis_gradient (\<lambda>y'. real (unat (lum (at_Mat img y' x)))) (rows img) y)\<^sup>2))"
proof -
  let ?gray = "\<lparr>rows = rows img, cols = cols img, cells = map (map lum) (cells img)\<rparr>"
  let ?e = "\<lparr>rows = rows img, cols = cols img,
          cells = map (\<lambda>y. map (\<lambda>x. pixel_energy ?gray (rows img) (cols img) y x) [0..<cols img])
                      [0..<rows img]\<rparr>"
  have eq: "energyCal lum img = Inr ?e" using assms(2,3) by (rule energyCal_nonempty)
  have wf: "wf_Mat ?e" by (simp add: wf_Mat_def list_all_iff)
  have px: "\<forall>y<rows img. \<forall>x<cols img.
                 at_Mat ?e y x =
                   sqrt ((axis_gradient (\<lambda>x'. real (unat (lum (at_Mat img y x')))) (cols img) x)\<^sup>2
                       + (axis_gradient (\<lambda>y'. real (unat (lum (at_Mat img y' x)))) (rows img) y)\<^sup>2)"
  proof (intro allI impI)
    fix y x assume y: "y < rows img" and x: "x < cols img"
    have gx: "axis_gradient (\<lambda>x'. gray_at ?gray y x') (cols img) x
                = axis_gradient (\<lambda>x'. real (unat (lum (at_Mat img y x')))) (cols img) x"
      by (rule axis_gradient_cong [OF x]) (rule gray_at_cvt [OF assms(1) y])
    have gy: "axis_gradient (\<lambda>y'. gray_at ?gray y' x) (rows img) y
                = axis_gradient (\<lambda>y'. real (unat (lum (at_Mat img y' x)))) (rows img) y"
      by (rule axis_gradient_cong [OF y]) (rule gray_at_cvt [OF assms(1) _ x])
    have "at_Mat ?e y x = pixel_energy ?gray (rows img) (cols img) y x"
      using y x by (simp add: at_Mat_def)
    then show "at_Mat ?e y x =
                   sqrt ((axis_gradient (\<lambda>x'. real (unat (lum (at_Mat img y x')))) (cols img) x)\<^sup>2
                       + (axis_gradient (\<lambda>y'. real (unat (lum (at_Mat img y' x)))) (rows img) y)\<^sup>2)"
      unfolding pixel_energy_axis [OF y x] gx gy by simp
  qed
  show ?thesis
    by (rule exI [of _ ?e]) (use eq wf px in simp)
qed

theorem energyCal_gradient_magnitude_witness:
  "(wf_Mat example_image \<and> 1 \<le> rows example_image \<and> 1 \<le> cols example_image)
   \<and> (\<exists>energy. energyCal luma601 example_image = Inr energy
           \<and> wf_Mat energy \<and> rows energy = rows example_image \<and> cols energy = cols example_image
           \<and> (\<forall>y<rows example_image. \<forall>x<cols example_image.
                 at_Mat energy y x =
                   sqrt ((axis_gradient (\<lambda>x'. real (unat (luma601 (at_Mat example_image y x'))))
                            (cols example_image) x)\<^sup>2
                       + (axis_gradient (\<lambda>y'. real (unat (luma601 (at_Mat example_image y' x))))
                            (rows example_image) y)\<^sup>2)))"
proof -
  have h1: "wf_Mat example_image" by (simp add: wf_Mat_def example_image_def)
  have h2: "1 \<le> rows example_image" by (simp add: example_image_def)
  have h3: "1 \<le> cols example_image" by (simp add: example_image_def)
  show ?thesis
    by (intro conjI h1 h2 h3 energyCal_gradient_magnitude [OF h1 h2 h3])
qed

section \<open>The driver\<close>

lemma energyCal_shape:
  assumes "1 \<le> rows img" "1 \<le> cols img"
  shows "\<exists>energy. energyCal lum img = Inr energy
           \<and> wf_Mat energy \<and> rows energy = rows img \<and> cols energy = cols img"
  unfolding energyCal_nonempty [OF assms] by (simp add: wf_Mat_def list_all_iff)

lemma removeVerSeam_shape:
  assumes "1 \<le> cols img" and "length seam = rows img"
    and "\<forall>i<rows img. 0 \<le> seam ! i \<and> seam ! i < int (cols img)"
  shows "\<exists>newImg. removeVerSeam img seam = Inr newImg
           \<and> wf_Mat newImg \<and> rows newImg = rows img \<and> cols newImg = cols img - 1"
proof -
  let ?out = "\<lparr>rows = rows img, cols = cols img - 1,
                cells = map (\<lambda>i. remove_col img i (seam ! i)) [0..<rows img]\<rparr>"
  have inr: "list_all (\<lambda>i. 0 \<le> seam ! i \<and> seam ! i < int (cols img)) [0..<rows img]"
    using assms(3) by (simp add: list_all_iff)
  have ne: "cols img \<noteq> 0" using assms(1) by simp
  have eq: "removeVerSeam img seam = Inr ?out"
    using ne assms(2) inr by (simp add: removeVerSeam_def)
  have wf: "wf_Mat ?out"
    using assms(3) by (simp add: wf_Mat_def list_all_iff remove_col_length)
  show ?thesis using eq wf by simp
qed

text \<open>One pass of energy map, seam search and seam removal.\<close>

lemma carve_ok:
  assumes "wf_Mat img" "1 \<le> rows img" "1 \<le> cols img"
  shows "\<exists>energy seam img'. energyCal lum img = Inr energy \<and> seamSearch energy = Inr seam
           \<and> removeVerSeam img seam = Inr img' \<and> carve lum img = Inr img'
           \<and> wf_Mat img' \<and> rows img' = rows img \<and> cols img' = cols img - 1"
proof -
  obtain energy where e: "energyCal lum img = Inr energy" "wf_Mat energy"
      "rows energy = rows img" "cols energy = cols img"
    using energyCal_shape [OF assms(2,3)] by blast
  have "1 \<le> rows energy" "1 \<le> cols energy" using e assms by simp_all
  then obtain seam where s: "seamSearch energy = Inr seam" "length seam = rows energy"
      "\<forall>i<rows energy. 0 \<le> seam ! i \<and> seam ! i < int (cols energy)"
    using seamSearch_seam_ok [OF e(2)] by blast
  have s': "length seam = rows img" "\<forall>i<rows img. 0 \<le> seam ! i \<and> seam ! i < int (cols img)"
    using s e by simp_all
  obtain img' where r: "removeVerSeam img seam = Inr img'" "wf_Mat img'"
      "rows img' = rows img" "cols img' = cols img - 1"
    using removeVerSeam_shape [OF assms(3) s'] by blast
  have "carve lum img = Inr img'" by (simp add: carve_def e(1) s(1) r(1))
  then show ?thesis using e(1) s(1) r by blast
qed

lemma transpose_Mat_shape:
  assumes "1 \<le> rows src" "1 \<le> cols src"
  shows "wf_Mat (transpose_Mat src)" "rows (transpose_Mat src) = cols src"
        "cols (transpose_Mat src) = rows src"
proof -
  have "\<not> empty_Mat src" using assms by (auto simp: empty_Mat_def)
  then show "wf_Mat (transpose_Mat src)" "rows (transpose_Mat src) = cols src"
        "cols (transpose_Mat src) = rows src"
    by (simp_all add: transpose_Mat_def wf_Mat_def list_all_iff)
qed

lemma height_step_ok:
  assumes "wf_Mat img" "2 \<le> rows img" "1 \<le> cols img"
  shows "\<exists>energy seam carved.
           energyCal lum (transpose_Mat img) = Inr energy \<and> seamSearch energy = Inr seam
           \<and> removeVerSeam (transpose_Mat img) seam = Inr carved
           \<and> cols carved = cols (transpose_Mat img) - 1
           \<and> height_step lum img = Inr (transpose_Mat carved)
           \<and> wf_Mat (transpose_Mat carved)
           \<and> cols (transpose_Mat carved) = cols img
           \<and> rows (transpose_Mat carved) = rows img - 1"
proof -
  let ?t = "transpose_Mat img"
  have r1: "1 \<le> rows img" using assms(2) by simp
  have t: "wf_Mat ?t" "rows ?t = cols img" "cols ?t = rows img"
    using transpose_Mat_shape [OF r1 assms(3)] by simp_all
  have t1: "1 \<le> rows ?t" "1 \<le> cols ?t" using t assms(2,3) by simp_all
  obtain energy seam carved where c: "energyCal lum ?t = Inr energy" "seamSearch energy = Inr seam"
      "removeVerSeam ?t seam = Inr carved" "carve lum ?t = Inr carved"
      "wf_Mat carved" "rows carved = rows ?t" "cols carved = cols ?t - 1"
    using carve_ok [OF t(1) t1] by blast
  have c1: "1 \<le> rows carved" "1 \<le> cols carved" using c(6,7) t assms(2,3) by simp_all
  have tb: "wf_Mat (transpose_Mat carved)" "rows (transpose_Mat carved) = cols carved"
      "cols (transpose_Mat carved) = rows carved"
    using transpose_Mat_shape [OF c1] by simp_all
  have step: "height_step lum img = Inr (transpose_Mat carved)"
    by (simp add: height_step_def c(4))
  have d1: "cols (transpose_Mat carved) = cols img" using tb(3) c(6) t(2) by simp
  have d2: "rows (transpose_Mat carved) = rows img - 1" using tb(2) c(7) t(3) by simp
  show ?thesis using c(1,2,3,7) step tb(1) d1 d2 by blast
qed

lemma width_loop_ok:
  "wf_Mat img \<Longrightarrow> 1 \<le> rows img \<Longrightarrow> 1 \<le> newWidth \<Longrightarrow> newWidth \<le> int (cols img) \<Longrightarrow>
   \<exists>res. width_loop lum img newWidth = Inr res
         \<and> wf_Mat res \<and> rows res = rows img \<and> int (cols res) = newWidth"
proof (induction lum img newWidth rule: width_loop.induct)
  case (1 lum img newWidth)
  show ?case
  proof (cases "int (cols img) > newWidth")
    case False
    then have "int (cols img) = newWidth" using "1.prems"(4) by simp
    moreover have "width_loop lum img newWidth = Inr img"
      using False by (subst width_loop.simps) simp
    ultimately show ?thesis using "1.prems"(1) by simp
  next
    case True
    then have c: "1 \<le> cols img" using "1.prems"(3) by linarith
    obtain img' where s: "carve lum img = Inr img'" "wf_Mat img'" "rows img' = rows img"
        "cols img' = cols img - 1"
      using carve_ok [OF "1.prems"(1,2) c] by blast
    have le: "newWidth \<le> int (cols img')" using True s(4) by linarith
    have r: "1 \<le> rows img'" using s(3) "1.prems"(2) by simp
    obtain res where res: "width_loop lum img' newWidth = Inr res" "wf_Mat res"
        "rows res = rows img'" "int (cols res) = newWidth"
      using "1.IH" [OF True s(1) s(2) r "1.prems"(3) le] by blast
    have "width_loop lum img newWidth = Inr res"
      using True s(1) res(1) by (subst width_loop.simps) simp
    then show ?thesis using res s(3) by simp
  qed
qed

lemma height_loop_ok:
  "wf_Mat img \<Longrightarrow> 1 \<le> cols img \<Longrightarrow> 1 \<le> newHeight \<Longrightarrow> newHeight \<le> int (rows img) \<Longrightarrow>
   \<exists>res. height_loop lum img newHeight = Inr res
         \<and> wf_Mat res \<and> cols res = cols img \<and> int (rows res) = newHeight"
proof (induction lum img newHeight rule: height_loop.induct)
  case (1 lum img newHeight)
  show ?case
  proof (cases "int (rows img) > newHeight")
    case False
    then have "int (rows img) = newHeight" using "1.prems"(4) by simp
    moreover have "height_loop lum img newHeight = Inr img"
      using False by (subst height_loop.simps) simp
    ultimately show ?thesis using "1.prems"(1) by simp
  next
    case True
    then have r2: "2 \<le> rows img" using "1.prems"(3) by linarith
    obtain img' where s: "height_step lum img = Inr img'" "wf_Mat img'" "cols img' = cols img"
        "rows img' = rows img - 1"
      using height_step_ok [OF "1.prems"(1) r2 "1.prems"(2)] by blast
    have le: "newHeight \<le> int (rows img')" using True s(4) by linarith
    have c: "1 \<le> cols img'" using s(3) "1.prems"(2) by simp
    obtain res where res: "height_loop lum img' newHeight = Inr res" "wf_Mat res"
        "cols res = cols img'" "int (rows res) = newHeight"
      using "1.IH" [OF True s(1) s(2) c "1.prems"(3) le] by blast
    have "height_loop lum img newHeight = Inr res"
      using True s(1) res(1) by (subst height_loop.simps) simp
    then show ?thesis using res s(3) by simp
  qed
qed

text \<open>
  C1. For a well-formed image and targets with \<open>1 \<le> newWidth < cols\<close> and
  \<open>1 \<le> newHeight < rows\<close>, \<open>seamCar\<close> returns (both loops are total functions with a
  decreasing measure, and no step fails), prints nothing, and the image it returns is
  well formed with exactly \<open>newWidth\<close> columns and \<open>newHeight\<close> rows.
\<close>

theorem seamCar_reaches_target:
  assumes "wf_Mat img" and "1 \<le> newWidth" and "newWidth < int (cols img)"
    and "1 \<le> newHeight" and "newHeight < int (rows img)"
  shows "\<exists>res. seamCar lum img newWidth newHeight out = (Inr res, out)
           \<and> wf_Mat res \<and> int (cols res) = newWidth \<and> int (rows res) = newHeight"
proof -
  have r: "1 \<le> rows img" using assms(4,5) by linarith
  have w: "newWidth \<le> int (cols img)" using assms(3) by simp
  obtain img1 where a: "width_loop lum img newWidth = Inr img1" "wf_Mat img1"
      "rows img1 = rows img" "int (cols img1) = newWidth"
    using width_loop_ok [OF assms(1) r assms(2) w] by blast
  have c: "1 \<le> cols img1" using a(4) assms(2) by linarith
  have h: "newHeight \<le> int (rows img1)" using a(3) assms(5) by simp
  obtain res where b: "height_loop lum img1 newHeight = Inr res" "wf_Mat res"
      "cols res = cols img1" "int (rows res) = newHeight"
    using height_loop_ok [OF a(2) c assms(4) h] by blast
  have guard: "\<not> (newHeight \<ge> int (rows img) \<or> newWidth \<ge> int (cols img))"
    using assms(3,5) by simp
  have "seamCar lum img newWidth newHeight out = (Inr res, out)"
    unfolding seamCar_def using guard a(1) b(1) by simp
  then show ?thesis using b(2,3,4) a(4) by simp
qed

theorem seamCar_reaches_target_witness:
  "(wf_Mat example_image \<and> (1::int) \<le> 2 \<and> 2 < int (cols example_image)
      \<and> (1::int) \<le> 1 \<and> 1 < int (rows example_image))
   \<and> (\<exists>res. seamCar luma601 example_image 2 1 [] = (Inr res, [])
           \<and> wf_Mat res \<and> int (cols res) = 2 \<and> int (rows res) = 1)"
proof -
  have h1: "wf_Mat example_image" by (simp add: wf_Mat_def example_image_def)
  have h2: "(1::int) \<le> 2" by simp
  have h3: "2 < int (cols example_image)" by (simp add: example_image_def)
  have h4: "(1::int) \<le> 1" by simp
  have h5: "1 < int (rows example_image)" by (simp add: example_image_def)
  show ?thesis
    by (intro conjI h1 h2 h3 h4 h5 seamCar_reaches_target [OF h1 h2 h3 h4 h5])
qed

section \<open>An iteration of the height loop\<close>

















section \<open>A target width equal to the current width\<close>

text \<open>
  C9, as stated, fails: on a 3\<times>4 image with target width 3 and target height 2 the guard of
  \<open>seamCar\<close> fires, because the target width is not strictly below the current width.
  No reducing phase is entered and no image is returned.
\<close>

theorem seamCar_3x4_to_3x2_rejected:
  "seamCar luma601 (constant_image 3 4 (128, 128, 128)) 3 2 []
     = (Inl (Exit 0), ''Invalid Input'' @ [CHR 0x0A])"
  by (simp add: seamCar_def constant_image_def)

text \<open>
  C9, amended. For every image with 3 columns and 4 rows, \<open>seamCar\<close> with target width 3
  and target height 2 prints \<open>Invalid Input\<close> and leaves through \<open>exit\<close> without returning
  an image.
\<close>

theorem seamCar_width_already_met:
  assumes "cols img = 3" and "rows img = 4"
  shows "seamCar lum img 3 2 out = (Inl (Exit 0), out @ ''Invalid Input'' @ [CHR 0x0A])"
  using assms by (simp add: seamCar_def)

theorem seamCar_width_already_met_witness:
  "(cols (constant_image 3 4 (0, 0, 0)) = 3 \<and> rows (constant_image 3 4 (0, 0, 0)) = 4)
   \<and> seamCar luma601 (constant_image 3 4 (0, 0, 0)) 3 2 []
        = (Inl (Exit 0), [] @ ''Invalid Input'' @ [CHR 0x0A])"
proof -
  have h1: "cols (constant_image 3 4 (0, 0, 0)) = 3" by (simp add: constant_image_def)
  have h2: "rows (constant_image 3 4 (0, 0, 0)) = 4" by (simp add: constant_image_def)
  show ?thesis
    by (intro conjI h1 h2 seamCar_width_already_met [OF h1 h2])
qed

section \<open>The exit status on an invalid target\<close>

text \<open>
  The other failures of \<open>main\<close> (missing argument, unreadable image, failed save) end
  with \<open>return -1\<close>.
\<close>

lemma main_other_failures_exit_nonzero:
  "length argv < 2 \<Longrightarrow> ending (main lum argv imread newWidth newHeight isSuccess) = Exit (- 1)"
  "2 \<le> length argv \<Longrightarrow> empty_Mat (imread (argv ! 1)) \<Longrightarrow>
     ending (main lum argv imread newWidth newHeight isSuccess) = Exit (- 1)"
  "2 \<le> length argv \<Longrightarrow> \<not> empty_Mat (imread (argv ! 1)) \<Longrightarrow>
     seamCar lum (imread (argv ! 1)) newWidth newHeight (''Enter new width: '' @ ''Enter new height: '')
       = (Inr resizedImg, out') \<Longrightarrow> \<not> empty_Mat resizedImg \<Longrightarrow>
     ending (main lum argv imread newWidth newHeight False) = Exit (- 1)"
  by (simp_all add: main_def Let_def)

text \<open>
  C8 claims a nonzero exit status for invalid target dimensions. The run below decodes a
  4\<times>4 image and asks for 4\<times>3: \<open>seamCar\<close> calls \<open>exit(0)\<close>, so the status is 0.
\<close>

theorem main_invalid_target_exit_status:
  "main luma601 [''seam'', ''in.png''] (\<lambda>path. constant_image 4 4 (128, 128, 128)) 4 3 True
     = \<lparr>ending = Exit 0,
        printed = ''Enter new width: '' @ ''Enter new height: '' @ ''Invalid Input'' @ [CHR 0x0A],
        written = None\<rparr>"
  by (simp add: main_def seamCar_def constant_image_def empty_Mat_def)

end
